theory Spec2Isabelle
  imports Main
begin

section \<open>Rendering helpers\<close>

text \<open>
  Template literals of the source render numbers in decimal and arrays as their
  elements joined by a comma.  Both are written out here so that every string the
  summary produces can be computed.
\<close>

definition digit_char :: "nat \<Rightarrow> char" where
  "digit_char n = ''0123456789'' ! (n mod 10)"

fun show_nat :: "nat \<Rightarrow> string" where
  "show_nat n = (if n < 10 then [digit_char n] else show_nat (n div 10) @ [digit_char n])"

definition show_int :: "int \<Rightarrow> string" where
  "show_int i = (if i < 0 then CHR ''-'' # show_nat (nat (- i)) else show_nat (nat i))"

text \<open>\<^verbatim>\<open>Array.prototype.join\<close>, which is also what \<^verbatim>\<open>`${array}`\<close> calls with a comma.\<close>

fun join :: "string \<Rightarrow> string list \<Rightarrow> string" where
  "join sep [] = []"
| "join sep [x] = x"
| "join sep (x # y # ys) = x @ sep @ join sep (y # ys)"

definition array_to_string :: "string list \<Rightarrow> string" where
  "array_to_string xs = join '','' xs"

section \<open>Data model of the summary generator\<close>

text \<open>
  Every object handed to \<^verbatim>\<open>generateCompilationLog\<close> has a \<^verbatim>\<open>path\<close>; assets add
  \<^verbatim>\<open>copyTime\<close>, source files \<^verbatim>\<open>compilationTime\<close>, generated files their
  \<^verbatim>\<open>sourceFiles\<close>.  Time stamps are the integers \<^verbatim>\<open>Date.now()\<close> returns; a file
  that carries none compares like one stamped before the start.

  \<^verbatim>\<open>dgen.includes(generatedFile)\<close> compares objects by identity, so a generated file
  carries the identity of its object in \<open>ref\<close>: two records stand for the same object
  exactly when their \<open>ref\<close> agree.
\<close>

record fsfile =
  path :: string

record asset = fsfile +
  copyTime :: int

record sourceFile = fsfile +
  compilationTime :: int

record generatedFile = fsfile +
  ref :: nat
  sourceFiles :: "sourceFile list"

record disposedFiles =
  generated :: "generatedFile list"
  sourcePaths :: "string list"

text \<open>
  \<^verbatim>\<open>basename\<close> comes from the module \<^verbatim>\<open>./path\<close>, which is not part of the sources at
  hand; it is a parameter \<open>basename\<close> of everything below.
\<close>

definition getName :: "(string \<Rightarrow> string) \<Rightarrow> 'a fsfile_scheme \<Rightarrow> string" where
  "getName basename f = basename (path f)"

definition array_includes :: "generatedFile list \<Rightarrow> generatedFile \<Rightarrow> bool" where
  "array_includes dgen generatedFile = (ref generatedFile \<in> set (map ref dgen))"

section \<open>Step 1 of generateCompilationLog: classification\<close>

text \<open>The variables the inner \<^verbatim>\<open>forEach\<close> over the source files assigns.\<close>

record inner =
  isChanged :: bool
  locallyCompiledCount :: nat
  compiled_in :: "string list"

text \<open>The variables the outer \<^verbatim>\<open>forEach\<close> over the generated files assigns.\<close>

record buckets =
  generated_names :: "string list"
  compiled :: "string list"
  cachedCount :: int

text \<open>Body of the inner loop (lines 110 to 120).\<close>

definition sourceStep ::
  "(string \<Rightarrow> string) \<Rightarrow> int \<Rightarrow> generatedFile list \<Rightarrow> generatedFile \<Rightarrow> sourceFile \<Rightarrow> inner \<Rightarrow> inner"
where
  "sourceStep basename startTime dgen generatedFile sourceFile s =
    (let s1 =
       (if compilationTime sourceFile \<ge> startTime then
          (let sourceName = getName basename sourceFile in
           s\<lparr>isChanged := True,
             locallyCompiledCount := locallyCompiledCount s + 1,
             compiled_in := (if sourceName \<in> set (compiled_in s) then compiled_in s
                             else compiled_in s @ [sourceName])\<rparr>)
        else s)
     in if \<not> isChanged s1 \<and> array_includes dgen generatedFile then s1\<lparr>isChanged := True\<rparr> else s1)"

text \<open>Body of the outer loop (lines 106 to 125).\<close>

definition generatedStep ::
  "(string \<Rightarrow> string) \<Rightarrow> int \<Rightarrow> generatedFile list \<Rightarrow> generatedFile \<Rightarrow> buckets \<Rightarrow> buckets"
where
  "generatedStep basename startTime dgen generatedFile b =
    (let len = length (sourceFiles generatedFile);
         s = fold (sourceStep basename startTime dgen generatedFile) (sourceFiles generatedFile)
               \<lparr>isChanged = False, locallyCompiledCount = 0, compiled_in = compiled b\<rparr>;
         b1 = b\<lparr>compiled := compiled_in s\<rparr>
     in if isChanged s then
          b1\<lparr>generated_names := generated_names b1 @ [getName basename generatedFile],
             cachedCount := cachedCount b1 + (int len - int (locallyCompiledCount s))\<rparr>
        else b1)"

definition classify ::
  "(string \<Rightarrow> string) \<Rightarrow> int \<Rightarrow> generatedFile list \<Rightarrow> disposedFiles \<Rightarrow> buckets"
where
  "classify basename startTime generatedFiles disposed =
     fold (generatedStep basename startTime (generated disposed)) generatedFiles
       \<lparr>generated_names = [], compiled = [], cachedCount = 0\<rparr>"

definition copied_names :: "(string \<Rightarrow> string) \<Rightarrow> int \<Rightarrow> asset list \<Rightarrow> string list" where
  "copied_names basename startTime allAssets =
     map (getName basename) (filter (\<lambda>a. copyTime a > startTime) allAssets)"

section \<open>Steps 2 and 3: rendering\<close>

definition generatedLog :: "string list \<Rightarrow> string" where
  "generatedLog gen =
     (if length gen = 0 then ''''
      else if length gen = 1 then '' into '' @ array_to_string gen
      else '' into '' @ show_nat (length gen) @ '' files'')"

definition compiledLog :: "string list \<Rightarrow> string list \<Rightarrow> string" where
  "compiledLog names disposed =
     (if length names = 0 then
        (if length disposed = 0 then ''''
         else if length disposed = 1 then ''removed '' @ array_to_string disposed
         else ''removed '' @ show_nat (length disposed))
      else if length names = 1 then ''compiled '' @ array_to_string names
      else ''compiled '' @ show_nat (length names))"

definition cachedLog :: "string list \<Rightarrow> string list \<Rightarrow> int \<Rightarrow> string" where
  "cachedLog gen names cached =
     (if cached = 0 then (if length names \<le> 1 then '''' else '' files'')
      else if length names = 0 then
        (let noun = (if length gen > 1 then '''' else '' files'')
         in '' and wrote '' @ show_int cached @ '' cached'' @ noun)
      else if length names = 1 then
        (let cachedCountName = ''file'' @ (if cached = 1 then '''' else ''s'')
         in '' and '' @ show_int cached @ '' cached '' @ cachedCountName)
      else '' files and '' @ show_int cached @ '' cached'')"

definition assetsLog :: "string list \<Rightarrow> string list \<Rightarrow> string" where
  "assetsLog copied names =
     (if length copied = 0 then ''''
      else if length copied = 1 then ''copied '' @ array_to_string copied
      else if length names \<noteq> 0 then ''copied '' @ show_nat (length copied)
      else ''copied '' @ show_nat (length copied) @ '' files'')"

text \<open>The text \<^verbatim>\<open>main\<close> of line 171, before the elapsed time is appended.\<close>

definition main_log ::
  "(string \<Rightarrow> string) \<Rightarrow> int \<Rightarrow> asset list \<Rightarrow> generatedFile list \<Rightarrow> disposedFiles \<Rightarrow> string"
where
  "main_log basename startTime allAssets generatedFiles disposedFiles =
    (let copied = copied_names basename startTime allAssets;
         b = classify basename startTime generatedFiles disposedFiles;
         disposed = sourcePaths disposedFiles;
         nonAssetsLog = compiledLog (compiled b) disposed
                        @ cachedLog (generated_names b) (compiled b) (cachedCount b)
                        @ generatedLog (generated_names b);
         sep = (if nonAssetsLog \<noteq> '''' \<and> length copied \<noteq> 0 then '', '' else '''')
     in nonAssetsLog @ sep @ assetsLog copied (compiled b))"

text \<open>
  Lines 172 to 176.  \<open>now\<close> is the value \<^verbatim>\<open>Date.now()\<close> returns during the call and
  \<open>toFixed1 diff\<close> stands for \<^verbatim>\<open>(diff / 1000).toFixed(1)\<close>, a rendering of a
  floating-point quotient that is left open.
\<close>

definition diffText :: "(int \<Rightarrow> string) \<Rightarrow> int \<Rightarrow> int \<Rightarrow> string" where
  "diffText toFixed1 now startTime =
    (let diff = now - startTime
     in if diff > 1000 then toFixed1 diff @ '' sec'' else show_int diff @ '' ms'')"

definition generateCompilationLog ::
  "(string \<Rightarrow> string) \<Rightarrow> (int \<Rightarrow> string) \<Rightarrow> int \<Rightarrow>
   int \<Rightarrow> asset list \<Rightarrow> generatedFile list \<Rightarrow> disposedFiles \<Rightarrow> string"
where
  "generateCompilationLog basename toFixed1 now startTime allAssets generatedFiles disposedFiles =
    (let main = main_log basename startTime allAssets generatedFiles disposedFiles
     in (if main \<noteq> '''' then main else ''compiled'')
        @ '' in '' @ diffText toFixed1 now startTime)"

section \<open>Progress animator\<close>

text \<open>
  The closure \<^verbatim>\<open>writeWithDots\<close> of \<^verbatim>\<open>getCompilationProgress\<close> owns the counter
  \<^verbatim>\<open>iterations\<close>; the lines it hands to \<^verbatim>\<open>logger\<close> are collected in \<open>emitted\<close>.
  Every firing of the timeout runs the closure once and re-arms the timeout, so the
  tick with index \<open>i\<close> is the \<open>i\<close>-th run counted from zero.  The counter is a
  natural number: the source's double stops counting only beyond \<open>2 ^ 53\<close> ticks.
\<close>

record animator =
  iterations :: nat
  emitted :: "string list"

definition animator_start :: animator where
  "animator_start = \<lparr>iterations = 0, emitted = []\<rparr>"

definition writeWithDots :: "animator \<Rightarrow> animator" where
  "writeWithDots a =
    (let msg = (if iterations a = 7 then ''still compiling'' else ''compiling'');
         line = msg @ take (iterations a mod 4) ''...''
     in a\<lparr>emitted := emitted a @ [line], iterations := iterations a + 1\<rparr>)"

fun ticks :: "nat \<Rightarrow> animator" where
  "ticks 0 = animator_start"
| "ticks (Suc n) = writeWithDots (ticks n)"

section \<open>Values, awaitables and the watchdog\<close>

text \<open>
  The values the plugin invoker looks at.  \<open>Obj\<close> is an object without a callable
  \<^verbatim>\<open>then\<close> (an \<^verbatim>\<open>Error\<close>, say), named by its identity; \<open>Thenable k\<close> is the awaitable
  with identity \<open>k\<close>.  Numbers are the integers and \<open>NaN\<close>.  An awaitable never
  fulfils with another awaitable, resolution unwraps them, so a fulfilment value is
  \<open>plain\<close>, while anything can be a rejection reason.
\<close>

datatype plain = Undefined | Null | Bool bool | Num int | NaN | Str string | Obj nat

datatype val = Plain plain | Thenable nat

fun truthy :: "val \<Rightarrow> bool" where
  "truthy (Plain Undefined) = False"
| "truthy (Plain Null) = False"
| "truthy (Plain (Bool b)) = b"
| "truthy (Plain (Num n)) = (n \<noteq> 0)"
| "truthy (Plain NaN) = False"
| "truthy (Plain (Str s)) = (s \<noteq> [])"
| "truthy (Plain (Obj r)) = True"
| "truthy (Thenable k) = True"

fun has_then_function :: "val \<Rightarrow> bool" where
  "has_then_function (Thenable k) = True"
| "has_then_function (Plain v) = False"

definition isPromise :: "val \<Rightarrow> bool" where
  "isPromise promise = (truthy promise \<and> has_then_function promise)"

text \<open>
  State of a promise: pending, locked to the awaitable it was resolved with, fulfilled
  or rejected.  \<open>resolve_fn\<close> and \<open>reject_fn\<close> are the two functions the executor of
  \<^verbatim>\<open>new Promise\<close> receives: they act on a pending promise only.
\<close>

datatype pstate = Pending | Following nat | Fulfilled plain | Rejected val

datatype outcome = Fulfil plain | Reject val

fun resolve_fn :: "val \<Rightarrow> pstate \<Rightarrow> pstate" where
  "resolve_fn (Plain v) Pending = Fulfilled v"
| "resolve_fn (Thenable k) Pending = Following k"
| "resolve_fn v p = p"

fun reject_fn :: "val \<Rightarrow> pstate \<Rightarrow> pstate" where
  "reject_fn e Pending = Rejected e"
| "reject_fn e p = p"

fun settled_as :: "outcome \<Rightarrow> pstate" where
  "settled_as (Fulfil v) = Fulfilled v"
| "settled_as (Reject r) = Rejected r"

text \<open>A promise locked to awaitable \<open>k\<close> takes over the outcome of \<open>k\<close>.\<close>

definition follow :: "nat \<Rightarrow> outcome \<Rightarrow> pstate \<Rightarrow> pstate" where
  "follow k out p = (if p = Following k then settled_as out else p)"

subsection \<open>safePromise\<close>

text \<open>
  What \<^verbatim>\<open>safePromise\<close> sets up: the interval \<^verbatim>\<open>warn\<close> (\<open>timer\<close> tells whether it is
  still registered, \<open>clears\<close> counts the calls of \<^verbatim>\<open>clearInterval\<close>), the lines given
  to \<^verbatim>\<open>logger.warn\<close>, and the promise \<^verbatim>\<open>promise.then(...)\<close> returns (\<open>forwarded\<close>).
  Real time is abstracted to the order of events: \<open>warn_fires\<close> is one more period of
  \<open>intervalTime\<close> running out, which reaches the callback only while the interval is
  registered.
\<close>

record watch =
  intervalTime :: int
  timeoutMessage :: string
  timer :: bool
  clears :: nat
  warned :: "string list"
  forwarded :: pstate

definition safePromise :: "int \<Rightarrow> string \<Rightarrow> watch" where
  "safePromise interval msg =
     \<lparr>intervalTime = interval, timeoutMessage = msg, timer = True, clears = 0,
      warned = [], forwarded = Pending\<rparr>"

definition warn_fires :: "watch \<Rightarrow> watch" where
  "warn_fires w = (if timer w then w\<lparr>warned := warned w @ [timeoutMessage w]\<rparr> else w)"

text \<open>The two handlers given to \<^verbatim>\<open>then\<close> (lines 18 to 24).\<close>

definition onFulfilled :: "plain \<Rightarrow> watch \<Rightarrow> watch" where
  "onFulfilled value w = w\<lparr>timer := False, clears := clears w + 1, forwarded := Fulfilled value\<rparr>"

definition onRejected :: "val \<Rightarrow> watch \<Rightarrow> watch" where
  "onRejected reason w = w\<lparr>timer := False, clears := clears w + 1, forwarded := Rejected reason\<rparr>"

text \<open>
  The guarded promise settles: \<^verbatim>\<open>then\<close> runs the matching handler, and runs a handler
  at most once, which is the case exactly while \<open>forwarded\<close> is pending.
\<close>

definition settle :: "outcome \<Rightarrow> watch \<Rightarrow> watch" where
  "settle out w =
    (if forwarded w = Pending then
       (case out of Fulfil value \<Rightarrow> onFulfilled value w | Reject reason \<Rightarrow> onRejected reason w)
     else w)"

text \<open>What a guarded operation can show its watchdog, in the order it happens.\<close>

datatype signal = Period | Outcome outcome

fun observe :: "signal \<Rightarrow> watch \<Rightarrow> watch" where
  "observe Period w = warn_fires w"
| "observe (Outcome out) w = settle out w"

fun first_outcome :: "signal list \<Rightarrow> outcome option" where
  "first_outcome [] = None"
| "first_outcome (Period # ss) = first_outcome ss"
| "first_outcome (Outcome out # ss) = Some out"

fun periods_before :: "signal list \<Rightarrow> nat" where
  "periods_before [] = 0"
| "periods_before (Period # ss) = Suc (periods_before ss)"
| "periods_before (Outcome out # ss) = 0"

subsection \<open>callPlugin\<close>

text \<open>
  The file a plugin works on has a \<^verbatim>\<open>path\<close> and its \<^verbatim>\<open>data\<close>.  A hook is the function
  \<^verbatim>\<open>plugin[method]\<close>: its declared parameter count \<^verbatim>\<open>fn.length\<close> and what applying it
  to the arguments does, return a value or throw.  The completion callback is the
  last argument; whether the hook invokes it before returning or later makes no
  difference to \<^verbatim>\<open>callPlugin\<close>, since the callback only acts on \<^verbatim>\<open>promise\<close>, whose
  reactions run after \<^verbatim>\<open>callPlugin\<close> has returned.  Every invocation is therefore an
  event \<open>Invoked\<close> of the time line that follows the call.
\<close>

record pfile = fsfile +
  data :: string

datatype arg = FileArg pfile | StrArg string | CallbackArg

datatype completion = Returns val | Throws val

record hook =
  declared_params :: nat
  body :: "arg list \<Rightarrow> completion"

record plugin =
  constructor_name :: string
  methods :: "string \<Rightarrow> hook option"

datatype exn = Thrown val | TypeError

text \<open>The operation handed to \<^verbatim>\<open>safePromise\<close>: \<^verbatim>\<open>promise\<close>, or the hook's own result.\<close>

datatype operation = Built | Given val

record call =
  guarded :: operation
  built :: pstate
  watching :: watch

definition completionCallback :: "val \<Rightarrow> val \<Rightarrow> pstate \<Rightarrow> pstate" where
  "completionCallback error result p =
     (if truthy error then reject_fn error p else resolve_fn result p)"

text \<open>
  Lines 49 to 55: the arguments of the hook, chosen by its declared parameter count,
  with the completion callback pushed last by the executor of \<^verbatim>\<open>promise\<close>.
\<close>

definition plugin_args :: "hook \<Rightarrow> pfile \<Rightarrow> arg list" where
  "plugin_args fn file =
     (if declared_params fn = 1 then [FileArg file]
      else [StrArg (data file), StrArg (path file)]) @ [CallbackArg]"

text \<open>
  \<^verbatim>\<open>callPlugin\<close> either leaves by an exception (\<open>Inl\<close>: what the hook threw, or the
  \<^verbatim>\<open>TypeError\<close> of reading \<^verbatim>\<open>length\<close> when \<^verbatim>\<open>plugin[method]\<close> is undefined) or returns
  what \<^verbatim>\<open>safePromise\<close> returns for the operation it chose (\<open>Inr\<close>).
\<close>

definition callPlugin :: "plugin \<Rightarrow> string \<Rightarrow> pfile \<Rightarrow> exn + call" where
  "callPlugin plugin method file =
    (case methods plugin method of
       None \<Rightarrow> Inl TypeError
     | Some fn \<Rightarrow>
        (let args = plugin_args fn file;
             promise = Pending
         in case body fn args of
              Throws e \<Rightarrow> Inl (Thrown e)
            | Returns result \<Rightarrow>
               (let warningLogInterval = 15000
                in Inr \<lparr>guarded = (if isPromise result then Given result else Built),
                        built = promise,
                        watching = safePromise warningLogInterval
                          (constructor_name plugin @ '' is taking too long to '' @ method
                           @ '' @ '' @ path file)\<rparr>)))"

text \<open>
  What happens after \<^verbatim>\<open>callPlugin\<close> has returned: a period of the watchdog runs out,
  the hook invokes the completion callback, or awaitable \<open>k\<close> settles.  \<open>Settled k out\<close>
  is the moment the outcome of \<open>k\<close> reaches the promise that follows \<open>k\<close> and the
  reaction that waits for \<open>k\<close>; for an awaitable that had settled before it was
  handed on, that moment comes right after the handing on.  \<open>deliver\<close>
  runs the reaction of \<^verbatim>\<open>promise\<close> once it has settled, when it is the guarded one.
\<close>

datatype event = Elapsed | Invoked val val | Settled nat outcome

definition deliver :: "call \<Rightarrow> call" where
  "deliver c =
    (if guarded c = Built then
       (case built c of
          Fulfilled v \<Rightarrow> c\<lparr>watching := settle (Fulfil v) (watching c)\<rparr>
        | Rejected r \<Rightarrow> c\<lparr>watching := settle (Reject r) (watching c)\<rparr>
        | _ \<Rightarrow> c)
     else c)"

fun step :: "event \<Rightarrow> call \<Rightarrow> call" where
  "step Elapsed c = c\<lparr>watching := warn_fires (watching c)\<rparr>"
| "step (Invoked error result) c = deliver (c\<lparr>built := completionCallback error result (built c)\<rparr>)"
| "step (Settled k out) c =
     deliver (c\<lparr>built := follow k out (built c),
                watching := (if guarded c = Given (Thenable k) then settle out (watching c)
                             else watching c)\<rparr>)"

definition run :: "event list \<Rightarrow> call \<Rightarrow> call" where
  "run evs c = fold step evs c"

fun is_invocation :: "event \<Rightarrow> bool" where
  "is_invocation (Invoked error result) = True"
| "is_invocation ev = False"

section \<open>Notions used in the statements and proofs\<close>

text \<open>
  What the two loops compute, in closed form: \<open>add_names\<close> is the repeated
  \<^verbatim>\<open>if (!compiled.includes(sourceName)) compiled.push(sourceName)\<close>, \<open>touched\<close> the test
  of line 111, \<open>changed_in_loop\<close> the value of \<^verbatim>\<open>isChanged\<close> after the inner loop and
  \<open>cached_of\<close> the summand of line 123.
\<close>

fun add_names :: "string list \<Rightarrow> string list \<Rightarrow> string list" where
  "add_names acc [] = acc"
| "add_names acc (x # xs) = add_names (if x \<in> set acc then acc else acc @ [x]) xs"

definition touched :: "int \<Rightarrow> sourceFile \<Rightarrow> bool" where
  "touched startTime s = (compilationTime s \<ge> startTime)"

definition changed_in_loop :: "int \<Rightarrow> generatedFile list \<Rightarrow> generatedFile \<Rightarrow> bool" where
  "changed_in_loop st dgen g =
     ((\<exists>s\<in>set (sourceFiles g). touched st s)
      \<or> (sourceFiles g \<noteq> [] \<and> array_includes dgen g))"

definition cached_of :: "int \<Rightarrow> generatedFile \<Rightarrow> int" where
  "cached_of st g = int (length (sourceFiles g)) - int (length (filter (touched st) (sourceFiles g)))"

text \<open>
  The classification as the specification words it: a generated file is changed this
  pass when one of its source files has \<^verbatim>\<open>compilationTime \<ge> startTime\<close> or when it is
  listed in \<^verbatim>\<open>disposed.generated\<close>.
\<close>

definition changed_spec :: "int \<Rightarrow> generatedFile list \<Rightarrow> generatedFile \<Rightarrow> bool" where
  "changed_spec st dgen g =
     ((\<exists>s\<in>set (sourceFiles g). compilationTime s \<ge> st) \<or> array_includes dgen g)"

text \<open>
  Modelled from the spec: the module \<^verbatim>\<open>./path\<close> with \<^verbatim>\<open>basename\<close> is missing from the
  sources; the specification only speaks of base names.  \<open>base_name\<close>, the part of
  a path after its last slash, stands in for it where a concrete input is evaluated.
\<close>

definition base_name :: "string \<Rightarrow> string" where
  "base_name p = rev (takeWhile (\<lambda>c. c \<noteq> CHR ''/'') (rev p))"

text \<open>Concrete inputs of the summary generator.\<close>

definition emptied_bundle :: generatedFile where
  "emptied_bundle = \<lparr>path = ''public/app.js'', ref = 7, sourceFiles = []\<rparr>"

definition scenario_A_bundle :: generatedFile where
  "scenario_A_bundle = \<lparr>path = ''public/app.js'', ref = 1, sourceFiles =
     [\<lparr>path = ''app/a.js'', compilationTime = 20\<rparr>,
      \<lparr>path = ''app/b.js'', compilationTime = 10\<rparr>,
      \<lparr>path = ''app/c.js'', compilationTime = 11\<rparr>,
      \<lparr>path = ''app/d.js'', compilationTime = 12\<rparr>]
     @ replicate 145 \<lparr>path = ''vendor/lib.js'', compilationTime = 9\<rparr>\<rparr>"

text \<open>
  For the plugin invoker: \<open>seen\<close> is what a reaction registered with \<^verbatim>\<open>then\<close> has
  been told about a promise, \<open>coupled\<close> says that the promise returned by
  \<^verbatim>\<open>safePromise\<close> is up to date with \<^verbatim>\<open>promise\<close> when that is the guarded one, and
  \<open>settles k\<close> recognises the events in which awaitable \<open>k\<close> settles.
\<close>

fun seen :: "pstate \<Rightarrow> pstate" where
  "seen (Fulfilled v) = Fulfilled v"
| "seen (Rejected r) = Rejected r"
| "seen p = Pending"

definition coupled :: "call \<Rightarrow> bool" where
  "coupled c = (guarded c = Built \<longrightarrow> forwarded (watching c) = seen (built c))"

fun settles :: "nat \<Rightarrow> event \<Rightarrow> bool" where
  "settles k (Settled j out) = (j = k)"
| "settles k ev = False"

text \<open>Concrete plugins, whose hook \<^verbatim>\<open>compile\<close> ignores its arguments, and their calls.\<close>

definition some_file :: pfile where
  "some_file = \<lparr>path = ''app/init.coffee'', data = ''x = 1''\<rparr>"

definition plugin_with :: "string \<Rightarrow> nat \<Rightarrow> completion \<Rightarrow> plugin" where
  "plugin_with name n done =
     \<lparr>constructor_name = name,
      methods = (\<lambda>m. if m = ''compile'' then Some \<lparr>declared_params = n, body = (\<lambda>args. done)\<rparr>
                     else None)\<rparr>"

definition sync_plugin :: plugin where
  "sync_plugin = plugin_with ''SyncCompiler'' 1 (Returns (Plain (Num 42)))"

definition throwing_plugin :: plugin where
  "throwing_plugin = plugin_with ''BrokenCompiler'' 1 (Throws (Plain (Obj 1)))"

definition callback_plugin :: plugin where
  "callback_plugin = plugin_with ''CallbackCompiler'' 3 (Returns (Plain Undefined))"

definition promise_plugin :: plugin where
  "promise_plugin = plugin_with ''PromiseCompiler'' 1 (Returns (Thenable 5))"

definition pending_call :: "string \<Rightarrow> call" where
  "pending_call name =
     \<lparr>guarded = Built, built = Pending,
      watching = \<lparr>intervalTime = 15000,
                  timeoutMessage = name @ '' is taking too long to compile @ app/init.coffee'',
                  timer = True, clears = 0, warned = [], forwarded = Pending\<rparr>\<rparr>"

definition promise_call :: call where
  "promise_call =
     \<lparr>guarded = Given (Thenable 5), built = Pending,
      watching = \<lparr>intervalTime = 15000,
                  timeoutMessage = ''PromiseCompiler is taking too long to compile @ app/init.coffee'',
                  timer = True, clears = 0, warned = [], forwarded = Pending\<rparr>\<rparr>"

section \<open>The summary generator: what the loops compute\<close>

declare show_nat.simps [simp del]

lemma show_nat_digit: "n < 10 \<Longrightarrow> show_nat n = [digit_char n]"
  by (simp add: show_nat.simps)

lemma show_4: "show_nat 4 = ''4''"
  by (simp add: show_nat.simps digit_char_def)

lemma show_145: "show_int 145 = ''145''"
  by code_simp

lemma sourceStep_eq:
  "sourceStep bn st dgen g a s =
     \<lparr>isChanged = (isChanged s \<or> touched st a \<or> array_includes dgen g),
      locallyCompiledCount = locallyCompiledCount s + (if touched st a then 1 else 0),
      compiled_in = add_names (compiled_in s) (if touched st a then [getName bn a] else [])\<rparr>"
  by (cases s) (auto simp add: sourceStep_def touched_def Let_def)

lemma inner_fold:
  "fold (sourceStep bn st dgen g) srcs s0 =
     \<lparr>isChanged = (isChanged s0 \<or> (\<exists>s\<in>set srcs. touched st s) \<or> (srcs \<noteq> [] \<and> array_includes dgen g)),
      locallyCompiledCount = locallyCompiledCount s0 + length (filter (touched st) srcs),
      compiled_in = add_names (compiled_in s0) (map (getName bn) (filter (touched st) srcs))\<rparr>"
proof (induction srcs arbitrary: s0)
  case Nil
  show ?case by simp
next
  case (Cons a srcs)
  let ?s1 = "sourceStep bn st dgen g a s0"
  have "fold (sourceStep bn st dgen g) (a # srcs) s0 = fold (sourceStep bn st dgen g) srcs ?s1"
    by simp
  also have "\<dots> =
     \<lparr>isChanged = (isChanged ?s1 \<or> (\<exists>s\<in>set srcs. touched st s) \<or> (srcs \<noteq> [] \<and> array_includes dgen g)),
      locallyCompiledCount = locallyCompiledCount ?s1 + length (filter (touched st) srcs),
      compiled_in = add_names (compiled_in ?s1) (map (getName bn) (filter (touched st) srcs))\<rparr>"
    by (rule Cons.IH)
  also have "\<dots> =
     \<lparr>isChanged = (isChanged s0 \<or> (\<exists>s\<in>set (a # srcs). touched st s) \<or> (a # srcs \<noteq> [] \<and> array_includes dgen g)),
      locallyCompiledCount = locallyCompiledCount s0 + length (filter (touched st) (a # srcs)),
      compiled_in = add_names (compiled_in s0) (map (getName bn) (filter (touched st) (a # srcs)))\<rparr>"
    by (auto simp add: sourceStep_eq)
  finally show ?case .
qed

lemma set_add_names: "set (add_names acc xs) = set acc \<union> set xs"
  by (induction xs arbitrary: acc) auto

lemma distinct_add_names: "distinct acc \<Longrightarrow> distinct (add_names acc xs)"
  by (induction xs arbitrary: acc) auto

lemma add_names_fresh:
  "distinct xs \<Longrightarrow> set xs \<inter> set acc = {} \<Longrightarrow> add_names acc xs = acc @ xs"
  by (induction xs arbitrary: acc) auto

lemma add_names_append: "add_names acc (xs @ ys) = add_names (add_names acc xs) ys"
  by (induction xs arbitrary: acc) auto

lemma generatedStep_eq:
  "generatedStep bn st dgen g b =
    \<lparr>generated_names = generated_names b @ (if changed_in_loop st dgen g then [getName bn g] else []),
     compiled = add_names (compiled b) (map (getName bn) (filter (touched st) (sourceFiles g))),
     cachedCount = cachedCount b + (if changed_in_loop st dgen g then cached_of st g else 0)\<rparr>"
  by (simp add: generatedStep_def inner_fold changed_in_loop_def cached_of_def Let_def)

lemma outer_fold:
  "fold (generatedStep bn st dgen) gs b =
    \<lparr>generated_names = generated_names b @ map (getName bn) (filter (changed_in_loop st dgen) gs),
     compiled = add_names (compiled b) (concat (map (\<lambda>g. map (getName bn) (filter (touched st) (sourceFiles g))) gs)),
     cachedCount = cachedCount b + sum_list (map (cached_of st) (filter (changed_in_loop st dgen) gs))\<rparr>"
proof (induction gs arbitrary: b)
  case Nil
  show ?case by simp
next
  case (Cons g gs)
  have "fold (generatedStep bn st dgen) (g # gs) b
          = fold (generatedStep bn st dgen) gs (generatedStep bn st dgen g b)"
    by simp
  also have "\<dots> = \<lparr>generated_names = generated_names (generatedStep bn st dgen g b)
                       @ map (getName bn) (filter (changed_in_loop st dgen) gs),
     compiled = add_names (compiled (generatedStep bn st dgen g b))
                  (concat (map (\<lambda>g. map (getName bn) (filter (touched st) (sourceFiles g))) gs)),
     cachedCount = cachedCount (generatedStep bn st dgen g b)
                   + sum_list (map (cached_of st) (filter (changed_in_loop st dgen) gs))\<rparr>"
    by (rule Cons.IH)
  also have "\<dots> = \<lparr>generated_names = generated_names b
                       @ map (getName bn) (filter (changed_in_loop st dgen) (g # gs)),
     compiled = add_names (compiled b)
                  (concat (map (\<lambda>g. map (getName bn) (filter (touched st) (sourceFiles g))) (g # gs))),
     cachedCount = cachedCount b
                   + sum_list (map (cached_of st) (filter (changed_in_loop st dgen) (g # gs)))\<rparr>"
    by (simp add: generatedStep_eq add_names_append)
  finally show ?case .
qed

lemma classify_eq:
  "classify bn st gs d =
    \<lparr>generated_names = map (getName bn) (filter (changed_in_loop st (generated d)) gs),
     compiled = add_names [] (concat (map (\<lambda>g. map (getName bn) (filter (touched st) (sourceFiles g))) gs)),
     cachedCount = sum_list (map (cached_of st) (filter (changed_in_loop st (generated d)) gs))\<rparr>"
  by (simp add: classify_def outer_fold)

lemma set_concat_touched:
  "set (concat (map (\<lambda>g. map (getName bn) (filter (touched st) (sourceFiles g))) gs)) =
     {getName bn s | s g. g \<in> set gs \<and> s \<in> set (sourceFiles g) \<and> compilationTime s \<ge> st}"
  by (auto simp add: touched_def)

text \<open>
  For a generated file that has source files the loop and the specification classify
  alike.
\<close>

lemma changed_agrees_nonempty:
  "sourceFiles g \<noteq> [] \<Longrightarrow> changed_in_loop st dgen g = changed_spec st dgen g"
  by (simp add: changed_in_loop_def changed_spec_def touched_def)

subsection \<open>Changed generated files\<close>

text \<open>
  Claim C1: every generated file, also one whose \<^verbatim>\<open>sourceFiles\<close> is empty, is changed
  exactly when one of its source files has \<^verbatim>\<open>compilationTime \<ge> startTime\<close> or it is a
  member of \<^verbatim>\<open>disposed.generated\<close>, and a changed generated file adds its base name to
  \<^verbatim>\<open>generated\<close>.  The source tests \<^verbatim>\<open>dgen.includes(generatedFile)\<close> inside the
  \<^verbatim>\<open>forEach\<close> over the source files (line 119), so for a generated file without source
  files the test never runs.  Evaluated on the bundle \<open>emptied_bundle\<close>, which has
  lost all its source files and is listed in \<^verbatim>\<open>disposed.generated\<close>: the
  specification's classification holds, yet the loop adds nothing to \<^verbatim>\<open>generated\<close>
  and the summary names no bundle.
\<close>

theorem disposed_bundle_without_sources:
  "changed_spec 100 [emptied_bundle] emptied_bundle \<and>
   generated_names (classify base_name 100 [emptied_bundle]
       \<lparr>generated = [emptied_bundle], sourcePaths = [''a.js'']\<rparr>) = [] \<and>
   main_log base_name 100 [] [emptied_bundle]
       \<lparr>generated = [emptied_bundle], sourcePaths = [''a.js'']\<rparr> = ''removed a.js''"
  by (simp add: changed_spec_def array_includes_def emptied_bundle_def classify_def
        generatedStep_def main_log_def copied_names_def compiledLog_def cachedLog_def
        generatedLog_def assetsLog_def array_to_string_def Let_def)

subsection \<open>Copied assets and compiled sources\<close>

text \<open>
  Claim C8: an asset is copied this pass exactly when \<^verbatim>\<open>copyTime > startTime\<close>, a
  source file is compiled this pass exactly when \<^verbatim>\<open>compilationTime \<ge> startTime\<close>.
  The copied names are the names of the assets strictly after the start; the compiled
  names are the names of the source files at or after the start; an asset copied
  exactly at the start is not copied while one a millisecond later is; a source file
  compiled exactly at the start is compiled while one a millisecond earlier is not.
\<close>

theorem copy_strict_compile_nonstrict:
  "copied_names bn st assets = map (getName bn) [a\<leftarrow>assets. copyTime a > st]
   \<and> set (compiled (classify bn st gs d)) =
       {getName bn s | s g. g \<in> set gs \<and> s \<in> set (sourceFiles g) \<and> compilationTime s \<ge> st}
   \<and> copied_names bn st [a\<lparr>copyTime := st\<rparr>] = []
   \<and> copied_names bn st [a\<lparr>copyTime := st + 1\<rparr>] = [getName bn a]
   \<and> compiled (classify bn st [g\<lparr>sourceFiles := [s\<lparr>compilationTime := st\<rparr>]\<rparr>] d) = [getName bn s]
   \<and> compiled (classify bn st [g\<lparr>sourceFiles := [s\<lparr>compilationTime := st - 1\<rparr>]\<rparr>] d) = []"
proof -
  have 1: "copied_names bn st assets = map (getName bn) [a\<leftarrow>assets. copyTime a > st]"
    by (simp add: copied_names_def)
  have 2: "set (compiled (classify bn st gs d)) =
       {getName bn s | s g. g \<in> set gs \<and> s \<in> set (sourceFiles g) \<and> compilationTime s \<ge> st}"
    by (simp only: classify_eq buckets.simps set_add_names set_concat_touched) simp
  have 3: "copied_names bn st [a\<lparr>copyTime := st\<rparr>] = []"
    by (simp add: copied_names_def)
  have 4: "copied_names bn st [a\<lparr>copyTime := st + 1\<rparr>] = [getName bn a]"
    by (simp add: copied_names_def getName_def)
  have 5: "compiled (classify bn st [g\<lparr>sourceFiles := [s\<lparr>compilationTime := st\<rparr>]\<rparr>] d) = [getName bn s]"
    by (simp add: classify_eq touched_def getName_def)
  have 6: "compiled (classify bn st [g\<lparr>sourceFiles := [s\<lparr>compilationTime := st - 1\<rparr>]\<rparr>] d) = []"
    by (simp add: classify_eq touched_def)
  from 1 2 3 4 5 6 show ?thesis by blast
qed

subsection \<open>Determinism of the summary\<close>

text \<open>
  Claim C9: two calls of the summary generator on the same snapshot (start time,
  assets, generated files, disposed files) give the same text up to the elapsed-time
  suffix.  The two calls may read different clocks \<open>now\<close>, \<open>now'\<close> and render the
  quotient differently; cutting \<^verbatim>\<open>" in " + diffText\<close> off either result leaves the
  same text, and each result is that text followed by its own suffix.
\<close>

theorem summary_deterministic:
  "take (length (generateCompilationLog bn tf now st assets gs d) - length ('' in '' @ diffText tf now st))
        (generateCompilationLog bn tf now st assets gs d)
   = take (length (generateCompilationLog bn tf' now' st assets gs d) - length ('' in '' @ diffText tf' now' st))
        (generateCompilationLog bn tf' now' st assets gs d)
   \<and> generateCompilationLog bn tf now st assets gs d
      = take (length (generateCompilationLog bn tf' now' st assets gs d) - length ('' in '' @ diffText tf' now' st))
          (generateCompilationLog bn tf' now' st assets gs d)
        @ '' in '' @ diffText tf now st"
proof -
  define main where
    "main = (let m = main_log bn st assets gs d in if m \<noteq> [] then m else ''compiled'')"
  have out: "generateCompilationLog bn tf0 now0 st assets gs d
               = main @ '' in '' @ diffText tf0 now0 st" for tf0 now0
    by (simp add: generateCompilationLog_def main_def Let_def)
  have cut: "take (length (generateCompilationLog bn tf0 now0 st assets gs d)
                    - length ('' in '' @ diffText tf0 now0 st))
               (generateCompilationLog bn tf0 now0 st assets gs d) = main" for tf0 now0
    by (simp add: out)
  show ?thesis
    by (simp only: cut) (simp add: out)
qed

subsection \<open>Scenario A\<close>

lemma main_log_one_bundle:
  assumes nocopy: "copied_names bn st assets = []"
    and norem: "sourcePaths d = []"
    and k: "length (filter (touched st) (sourceFiles g)) = k" "2 \<le> k"
    and dist: "distinct (map (getName bn) (filter (touched st) (sourceFiles g)))"
    and len: "length (sourceFiles g) = k + c" "0 < c"
  shows "main_log bn st assets [g] d =
           ''compiled '' @ show_nat k @ '' files and '' @ show_int (int c)
           @ '' cached into '' @ getName bn g"
proof -
  from k have "length (filter (touched st) (sourceFiles g)) \<noteq> 0" by simp
  then have ne: "filter (touched st) (sourceFiles g) \<noteq> []" by (simp only: length_0_conv not_False_eq_True)
  then have "\<exists>s\<in>set (sourceFiles g). touched st s"
    by (metis filter_False)
  then have ch: "changed_in_loop st (generated d) g" by (simp add: changed_in_loop_def)
  have comp: "compiled (classify bn st [g] d) = map (getName bn) (filter (touched st) (sourceFiles g))"
    using dist by (simp add: classify_eq add_names_fresh)
  have gen: "generated_names (classify bn st [g] d) = [getName bn g]"
    using ch by (simp add: classify_eq)
  have cc: "cachedCount (classify bn st [g] d) = int c"
    using ch k len by (simp add: classify_eq cached_of_def)
  show ?thesis
    using k len nocopy norem ne
    by (simp add: main_log_def Let_def comp gen cc compiledLog_def cachedLog_def
          generatedLog_def assetsLog_def array_to_string_def)
qed

lemma scenario_touched:
  "[s\<leftarrow>sourceFiles scenario_A_bundle. compilationTime s \<ge> 10] =
     [\<lparr>path = ''app/a.js'', compilationTime = 20\<rparr>,
      \<lparr>path = ''app/b.js'', compilationTime = 10\<rparr>,
      \<lparr>path = ''app/c.js'', compilationTime = 11\<rparr>,
      \<lparr>path = ''app/d.js'', compilationTime = 12\<rparr>]"
  by (simp add: scenario_A_bundle_def)

lemma scenario_cached:
  "[s\<leftarrow>sourceFiles scenario_A_bundle. compilationTime s < 10] =
     replicate 145 \<lparr>path = ''vendor/lib.js'', compilationTime = 9\<rparr>"
  by (simp add: scenario_A_bundle_def)

lemma scenario_name: "getName base_name scenario_A_bundle = ''app.js''"
  by (simp add: scenario_A_bundle_def getName_def base_name_def)

text \<open>
  Claim C5, as amended: for one generated file whose source files are 4 files with
  distinct base names compiled at or after the start and 145 files compiled before it,
  with no asset copied and nothing removed, the text before the elapsed-time suffix
  is \<^verbatim>\<open>compiled 4 files and 145 cached into {bundleName}\<close>.  The word \<^verbatim>\<open>files\<close> after
  the count comes from the last branch of \<^verbatim>\<open>cachedLog\<close> (line 158).
\<close>

theorem scenario_A_text:
  assumes "length [s\<leftarrow>sourceFiles g. compilationTime s \<ge> st] = 4"
    and "distinct (map (getName bn) [s\<leftarrow>sourceFiles g. compilationTime s \<ge> st])"
    and "length [s\<leftarrow>sourceFiles g. compilationTime s < st] = 145"
    and "\<forall>a\<in>set assets. copyTime a \<le> st"
    and "sourcePaths d = []" and "generated d = []"
  shows "main_log bn st assets [g] d = ''compiled 4 files and 145 cached into '' @ getName bn g"
proof -
  have t: "touched st = (\<lambda>s. compilationTime s \<ge> st)"
    by (simp add: touched_def fun_eq_iff)
  have "length (sourceFiles g) = length [s\<leftarrow>sourceFiles g. compilationTime s \<ge> st]
          + length [s\<leftarrow>sourceFiles g. \<not> compilationTime s \<ge> st]"
    by (rule sum_length_filter_compl [symmetric])
  also have "[s\<leftarrow>sourceFiles g. \<not> compilationTime s \<ge> st] = [s\<leftarrow>sourceFiles g. compilationTime s < st]"
    by (simp add: not_le)
  finally have len: "length (sourceFiles g) = 4 + 145"
    using assms(1,3) by simp
  have nocopy: "copied_names bn st assets = []"
    using assms(4) by (auto simp add: copied_names_def filter_empty_conv)
  have "main_log bn st assets [g] d =
           ''compiled '' @ show_nat 4 @ '' files and '' @ show_int (int 145)
           @ '' cached into '' @ getName bn g"
    by (rule main_log_one_bundle [OF nocopy assms(5)]) (use assms(1,2) len in \<open>simp_all add: t\<close>)
  then show ?thesis by (simp add: show_4 show_145)
qed

text \<open>The amended claim C5 at a concrete bundle, with an asset copied exactly at the start.\<close>

theorem scenario_A_text_witness:
  "length [s\<leftarrow>sourceFiles scenario_A_bundle. compilationTime s \<ge> 10] = 4 \<and>
   length [s\<leftarrow>sourceFiles scenario_A_bundle. compilationTime s < 10] = 145 \<and>
   main_log base_name 10 [\<lparr>path = ''img/logo.png'', copyTime = 10\<rparr>] [scenario_A_bundle]
      \<lparr>generated = [], sourcePaths = []\<rparr> = ''compiled 4 files and 145 cached into app.js''"
proof -
  have h1: "length [s\<leftarrow>sourceFiles scenario_A_bundle. compilationTime s \<ge> 10] = 4"
    by (simp add: scenario_touched)
  have h2: "distinct (map (getName base_name) [s\<leftarrow>sourceFiles scenario_A_bundle. compilationTime s \<ge> 10])"
    by (simp add: scenario_touched getName_def base_name_def)
  have h3: "length [s\<leftarrow>sourceFiles scenario_A_bundle. compilationTime s < 10] = 145"
    by (simp add: scenario_cached)
  have h4: "\<forall>a\<in>set [\<lparr>path = ''img/logo.png'', copyTime = 10\<rparr>]. copyTime a \<le> 10"
    by simp
  have h5: "sourcePaths \<lparr>generated = [], sourcePaths = []\<rparr> = []" by simp
  have h6: "generated \<lparr>generated = [], sourcePaths = []\<rparr> = []" by simp
  from scenario_A_text [OF h1 h2 h3 h4 h5 h6] h1 h3 show ?thesis
    by (simp add: scenario_name)
qed

text \<open>
  Claim C5 as it was stated, \<^verbatim>\<open>compiled 4 and 145 cached into {bundleName}\<close>, fails
  on that bundle.
\<close>

theorem scenario_A_text_differs:
  "main_log base_name 10 [] [scenario_A_bundle] \<lparr>generated = [], sourcePaths = []\<rparr>
     \<noteq> ''compiled 4 and 145 cached into '' @ getName base_name scenario_A_bundle"
proof -
  have t: "touched 10 = (\<lambda>s. compilationTime s \<ge> 10)"
    by (simp add: touched_def fun_eq_iff)
  have "main_log base_name 10 [] [scenario_A_bundle] \<lparr>generated = [], sourcePaths = []\<rparr> =
           ''compiled '' @ show_nat 4 @ '' files and '' @ show_int (int 145)
           @ '' cached into '' @ getName base_name scenario_A_bundle"
    by (rule main_log_one_bundle)
       (simp_all add: t scenario_touched copied_names_def getName_def base_name_def,
        simp add: scenario_A_bundle_def)
  then show ?thesis by (simp add: show_4 show_145 scenario_name)
qed

section \<open>The progress animator\<close>

lemma ticks_iterations: "iterations (ticks n) = n"
  by (induction n) (simp_all add: animator_start_def writeWithDots_def Let_def)

lemma ticks_length: "length (emitted (ticks n)) = n"
  by (induction n) (simp_all add: animator_start_def writeWithDots_def Let_def)

lemma dots: "k < 4 \<Longrightarrow> take k ''...'' = replicate k CHR ''.''"
proof -
  assume "k < 4"
  then consider "k = 0" | "k = 1" | "k = 2" | "k = 3" by linarith
  then show ?thesis
    by cases (simp_all add: numeral_2_eq_2 numeral_3_eq_3)
qed

text \<open>
  Claim C4, as amended: the line emitted at tick \<open>i\<close> is \<^verbatim>\<open>still compiling\<close> at tick 7
  only and \<^verbatim>\<open>compiling\<close> at every other tick, before and after it, followed by
  \<open>i mod 4\<close> dots.  The source compares with \<^verbatim>\<open>iterations === 7\<close> (line 192).
\<close>

theorem tick_line:
  "i < n \<Longrightarrow> emitted (ticks n) ! i =
     (if i = 7 then ''still compiling'' else ''compiling'') @ replicate (i mod 4) CHR ''.''"
proof (induction n)
  case 0
  then show ?case by simp
next
  case (Suc n)
  show ?case
  proof (cases "i = n")
    case True
    then show ?thesis
      by (simp add: writeWithDots_def Let_def ticks_iterations ticks_length nth_append dots)
  next
    case False
    with Suc.prems have "i < n" by simp
    with Suc.IH show ?thesis
      by (simp add: writeWithDots_def Let_def ticks_length nth_append)
  qed
qed

text \<open>The amended claim C4 at ticks 7 and 8 of a run of ten ticks.\<close>

theorem tick_line_witness:
  "8 < (10::nat) \<and> emitted (ticks 10) ! 7 = ''still compiling...''
   \<and> emitted (ticks 10) ! 8 = ''compiling''"
  using tick_line [of 7 10] tick_line [of 8 10] by (simp add: numeral_3_eq_3)

text \<open>
  Claim C4 as it was stated asks for \<^verbatim>\<open>still compiling\<close> at every tick from 7 on; at
  tick 8 the line is \<^verbatim>\<open>compiling\<close>.
\<close>

theorem tick_8_is_compiling: "emitted (ticks 9) ! 8 = ''compiling'' \<and>
   emitted (ticks 9) ! 8 \<noteq> ''still compiling'' @ replicate (8 mod 4) CHR ''.''"
  by code_simp

section \<open>The watchdog\<close>

lemma settled_as_not_pending [simp]: "settled_as out \<noteq> Pending"
  by (cases out) simp_all

lemma observe_settled: "forwarded w \<noteq> Pending \<Longrightarrow> \<not> timer w \<Longrightarrow> fold observe sigs w = w"
proof (induction sigs)
  case Nil
  show ?case by simp
next
  case (Cons s sigs)
  then have "observe s w = w"
    by (cases s) (simp_all add: warn_fires_def settle_def)
  with Cons show ?case by simp
qed

lemma observe_pending:
  "forwarded w = Pending \<Longrightarrow> timer w \<Longrightarrow>
   fold observe sigs w =
     (case first_outcome sigs of
        None \<Rightarrow> w\<lparr>warned := warned w @ replicate (periods_before sigs) (timeoutMessage w)\<rparr>
      | Some out \<Rightarrow>
          w\<lparr>timer := False, clears := clears w + 1,
            warned := warned w @ replicate (periods_before sigs) (timeoutMessage w),
            forwarded := settled_as out\<rparr>)"
proof (induction sigs arbitrary: w)
  case Nil
  show ?case by simp
next
  case (Cons s sigs)
  show ?case
  proof (cases s)
    case Period
    have w1: "forwarded (warn_fires w) = Pending" "timer (warn_fires w)"
      using Cons.prems by (simp_all add: warn_fires_def)
    have "fold observe (s # sigs) w = fold observe sigs (warn_fires w)"
      by (simp add: Period)
    also note Cons.IH [OF w1]
    finally show ?thesis
      using Cons.prems
      by (simp add: Period warn_fires_def replicate_app_Cons_same split: option.splits)
  next
    case (Outcome out)
    let ?w1 = "settle out w"
    have st: "?w1 = w\<lparr>timer := False, clears := clears w + 1, forwarded := settled_as out\<rparr>"
      using Cons.prems by (cases out) (simp_all add: settle_def onFulfilled_def onRejected_def)
    have "fold observe (s # sigs) w = fold observe sigs ?w1"
      by (simp add: Outcome)
    also have "\<dots> = ?w1"
      by (rule observe_settled) (simp_all add: st)
    finally show ?thesis
      by (simp add: Outcome st)
  qed
qed

text \<open>
  Claim C7: for every interval, message and course of the guarded operation, the
  promise \<^verbatim>\<open>safePromise\<close> returns takes the first outcome of the operation unchanged
  (fulfilled with the same value, rejected with the same reason) and stays pending
  while there is none; \<^verbatim>\<open>clearInterval\<close> is called once when the operation settles
  and not at all before; the interval is registered exactly while the operation is
  unsettled; and the warnings are one per period that ran out before the settlement,
  none for a later period.
\<close>

theorem safePromise_forwards:
  "forwarded (fold observe sigs (safePromise interval msg))
     = (case first_outcome sigs of None \<Rightarrow> Pending | Some out \<Rightarrow> settled_as out)
   \<and> clears (fold observe sigs (safePromise interval msg))
     = (case first_outcome sigs of None \<Rightarrow> 0 | Some out \<Rightarrow> 1)
   \<and> timer (fold observe sigs (safePromise interval msg)) = (first_outcome sigs = None)
   \<and> warned (fold observe sigs (safePromise interval msg)) = replicate (periods_before sigs) msg"
proof -
  have "forwarded (safePromise interval msg) = Pending" "timer (safePromise interval msg)"
    by (simp_all add: safePromise_def)
  from observe_pending [OF this, of sigs] show ?thesis
    by (simp add: safePromise_def split: option.splits)
qed

section \<open>The plugin invoker\<close>

lemma callPlugin_Inr:
  assumes "callPlugin p m f = Inr c"
  shows "built c = Pending" "forwarded (watching c) = Pending" "coupled c"
  using assms
  by (auto simp add: callPlugin_def Let_def safePromise_def coupled_def
        split: option.splits completion.splits)

lemma guarded_step [simp]: "guarded (step ev c) = guarded c"
  by (cases ev) (auto simp add: deliver_def split: pstate.splits)

lemma guarded_run [simp]: "guarded (run evs c) = guarded c"
  unfolding run_def by (induction evs arbitrary: c) simp_all

lemma run_Nil [simp]: "run [] c = c"
  by (simp add: run_def)

lemma run_Cons [simp]: "run (ev # evs) c = run evs (step ev c)"
  by (simp add: run_def)

lemma run_append [simp]: "run (xs @ ys) c = run ys (run xs c)"
  by (simp add: run_def)

lemma forwarded_warn [simp]: "forwarded (warn_fires w) = forwarded w"
  by (simp add: warn_fires_def)

lemma forwarded_settle:
  "forwarded (settle out w) = (if forwarded w = Pending then settled_as out else forwarded w)"
  by (cases out) (simp_all add: settle_def onFulfilled_def onRejected_def)


lemma completionCallback_idle: "p \<noteq> Pending \<Longrightarrow> completionCallback e d p = p"
  by (cases p) (simp_all add: completionCallback_def)


lemma built_step_deliver [simp]: "built (deliver c) = built c"
  by (simp add: deliver_def split: pstate.splits)

lemma coupled_deliver:
  "guarded c = Built \<Longrightarrow> forwarded (watching c) = Pending \<or> forwarded (watching c) = seen (built c)
     \<Longrightarrow> coupled (deliver c)"
  by (cases "built c") (auto simp add: coupled_def deliver_def forwarded_settle)

lemma coupled_step: "coupled c \<Longrightarrow> coupled (step ev c)"
proof (cases "guarded c = Built")
  case False
  then show ?thesis using guarded_step [of ev c] by (simp add: coupled_def)
next
  case True
  assume cp: "coupled c"
  with True have fw: "forwarded (watching c) = seen (built c)" by (simp add: coupled_def)
  show ?thesis
  proof (cases ev)
    case Elapsed
    then show ?thesis using True fw by (simp add: coupled_def)
  next
    case (Invoked e d)
    show ?thesis
    proof (cases "built c = Pending")
      case True
      with fw \<open>guarded c = Built\<close> show ?thesis
        unfolding Invoked step.simps by (intro coupled_deliver) simp_all
    next
      case False
      with fw \<open>guarded c = Built\<close> show ?thesis
        unfolding Invoked step.simps
        by (intro coupled_deliver) (simp_all add: completionCallback_idle)
    qed
  next
    case (Settled k out)
    show ?thesis
    proof (cases "built c = Following k")
      case True
      with fw \<open>guarded c = Built\<close> show ?thesis
        unfolding Settled step.simps by (intro coupled_deliver) simp_all
    next
      case False
      with fw \<open>guarded c = Built\<close> show ?thesis
        unfolding Settled step.simps by (intro coupled_deliver) (simp_all add: follow_def)
    qed
  qed
qed

lemma coupled_run: "coupled c \<Longrightarrow> coupled (run evs c)"
  by (induction evs arbitrary: c) (simp_all add: coupled_step)



lemma built_quiet_step:
  "\<not> is_invocation ev \<Longrightarrow> built c = Pending \<Longrightarrow> built (step ev c) = Pending"
  by (cases ev) (simp_all add: follow_def)

lemma built_quiet_run:
  "\<not> list_ex is_invocation evs \<Longrightarrow> built c = Pending \<Longrightarrow> built (run evs c) = Pending"
  by (induction evs arbitrary: c) (simp_all add: built_quiet_step)



lemma forwarded_stable_step:
  "forwarded (watching c) \<noteq> Pending \<Longrightarrow> forwarded (watching (step ev c)) = forwarded (watching c)"
  by (cases ev) (auto simp add: deliver_def forwarded_settle split: pstate.splits)

lemma forwarded_stable_run:
  "forwarded (watching c) \<noteq> Pending \<Longrightarrow> forwarded (watching (run evs c)) = forwarded (watching c)"
  by (induction evs arbitrary: c) (simp_all add: forwarded_stable_step)

lemma first_invocation:
  assumes "coupled c" "built c = Pending" "\<not> list_ex is_invocation pre"
  shows "built (run (pre @ [Invoked e d]) c) = completionCallback e d Pending"
    and "guarded c = Built \<Longrightarrow>
           forwarded (watching (run (pre @ [Invoked e d]) c)) = seen (completionCallback e d Pending)"
proof -
  have b: "built (run pre c) = Pending" using assms by (simp add: built_quiet_run)
  then show 1: "built (run (pre @ [Invoked e d]) c) = completionCallback e d Pending"
    by simp
  assume g: "guarded c = Built"
  let ?r = "run (pre @ [Invoked e d]) c"
  have cp: "coupled ?r" using assms(1) by (rule coupled_run)
  have gr: "guarded ?r = Built" by (simp only: guarded_run g)
  from cp gr have "forwarded (watching ?r) = seen (built ?r)"
    unfolding coupled_def by blast
  then show "forwarded (watching ?r) = seen (completionCallback e d Pending)"
    by (simp only: 1)
qed


lemma given_quiet_step:
  "guarded c = Given (Thenable k) \<Longrightarrow> \<not> settles k ev \<Longrightarrow> forwarded (watching c) = Pending
     \<Longrightarrow> forwarded (watching (step ev c)) = Pending"
  by (cases ev) (simp_all add: deliver_def)

lemma given_quiet_run:
  "guarded c = Given (Thenable k) \<Longrightarrow> \<not> list_ex (settles k) evs \<Longrightarrow> forwarded (watching c) = Pending
     \<Longrightarrow> forwarded (watching (run evs c)) = Pending"
proof (induction evs arbitrary: c)
  case Nil
  then show ?case by simp
next
  case (Cons ev evs)
  from Cons.prems(2) have ne: "\<not> settles k ev" and rest: "\<not> list_ex (settles k) evs"
    by simp_all
  have f1: "forwarded (watching (step ev c)) = Pending"
    using Cons.prems(1) ne Cons.prems(3) by (rule given_quiet_step)
  have g1: "guarded (step ev c) = Given (Thenable k)"
    using Cons.prems(1) by simp
  from Cons.IH [OF g1 rest f1] show ?case by simp
qed

lemma given_settles:
  assumes "guarded c = Given (Thenable k)" "forwarded (watching c) = Pending"
    and "\<not> list_ex (settles k) pre"
  shows "forwarded (watching (run (pre @ Settled k out # post) c)) = settled_as out"
proof -
  let ?c1 = "run pre c"
  have p: "forwarded (watching ?c1) = Pending"
    using assms by (intro given_quiet_run) simp_all
  have g: "guarded ?c1 = Given (Thenable k)" using assms(1) by simp
  have "forwarded (watching (step (Settled k out) ?c1)) = settled_as out"
    using p g by (simp add: deliver_def forwarded_settle)
  then have "forwarded (watching (run post (step (Settled k out) ?c1))) = settled_as out"
    by (simp add: forwarded_stable_run)
  then show ?thesis by simp
qed

lemma built_rejects:
  assumes "coupled c" "built c = Pending" "guarded c = Built"
    and "\<not> list_ex is_invocation pre" "truthy e"
  shows "forwarded (watching (run (pre @ Invoked e d # post) c)) = Rejected e"
proof -
  have "forwarded (watching (run (pre @ [Invoked e d]) c)) = seen (completionCallback e d Pending)"
    using assms(1,2,4,3) by (rule first_invocation(2))
  then have "forwarded (watching (run (pre @ [Invoked e d]) c)) = Rejected e"
    using assms(5) by (simp add: completionCallback_def)
  then have "forwarded (watching (run post (run (pre @ [Invoked e d]) c))) = Rejected e"
    by (simp add: forwarded_stable_run)
  then show ?thesis by simp
qed

text \<open>
  What becomes of \<^verbatim>\<open>promise\<close> after the first invocation of the callback, whatever
  follows: rejected or fulfilled for good, or locked to an awaitable until that one
  settles.  The same for the result of the call when \<^verbatim>\<open>promise\<close> is the guarded one.
\<close>

lemma built_locked_step:
  "built c = Following k \<Longrightarrow> \<not> settles k ev \<Longrightarrow> built (step ev c) = Following k"
  by (cases ev) (simp_all add: completionCallback_idle follow_def)

lemma built_locked_run:
  "built c = Following k \<Longrightarrow> \<not> list_ex (settles k) evs \<Longrightarrow> built (run evs c) = Following k"
  by (induction evs arbitrary: c) (simp_all add: built_locked_step)

lemma built_settled_step: "built c = settled_as out \<Longrightarrow> built (step ev c) = settled_as out"
  by (cases ev; cases out) (simp_all add: completionCallback_idle follow_def)

lemma built_settled_run: "built c = settled_as out \<Longrightarrow> built (run evs c) = settled_as out"
  by (induction evs arbitrary: c) (simp_all add: built_settled_step)

lemma first_invocation_fate:
  assumes "built c = Pending" and "\<not> list_ex is_invocation pre"
  shows "truthy e \<Longrightarrow> built (run (pre @ Invoked e d # post) c) = Rejected e"
    and "\<not> truthy e \<Longrightarrow> built (run (pre @ Invoked e (Plain v) # post) c) = Fulfilled v"
    and "\<not> truthy e \<Longrightarrow> \<not> list_ex (settles k) mid \<Longrightarrow>
           built (run (pre @ Invoked e (Thenable k) # mid) c) = Following k"
    and "\<not> truthy e \<Longrightarrow> \<not> list_ex (settles k) mid \<Longrightarrow>
           built (run (pre @ Invoked e (Thenable k) # mid @ Settled k out # post) c) = settled_as out"
proof -
  have b: "built (run pre c) = Pending"
    using assms(2,1) by (rule built_quiet_run)
  have inv: "built (step (Invoked e' d') (run pre c)) = completionCallback e' d' Pending" for e' d'
    by (simp add: b)
  show "built (run (pre @ Invoked e d # post) c) = Rejected e" if "truthy e"
  proof -
    have "built (step (Invoked e d) (run pre c)) = settled_as (Reject e)"
      using that by (simp add: b completionCallback_def)
    then have "built (run post (step (Invoked e d) (run pre c))) = settled_as (Reject e)"
      by (rule built_settled_run)
    then show ?thesis by simp
  qed
  show "built (run (pre @ Invoked e (Plain v) # post) c) = Fulfilled v" if "\<not> truthy e"
  proof -
    have "built (step (Invoked e (Plain v)) (run pre c)) = settled_as (Fulfil v)"
      using that by (simp add: b completionCallback_def)
    then have "built (run post (step (Invoked e (Plain v)) (run pre c))) = settled_as (Fulfil v)"
      by (rule built_settled_run)
    then show ?thesis by simp
  qed
  assume f: "\<not> truthy e" and q: "\<not> list_ex (settles k) mid"
  have l0: "built (step (Invoked e (Thenable k)) (run pre c)) = Following k"
    using f by (simp add: b completionCallback_def)
  then have l1: "built (run mid (step (Invoked e (Thenable k)) (run pre c))) = Following k"
    using q by (rule built_locked_run)
  then show "built (run (pre @ Invoked e (Thenable k) # mid) c) = Following k"
    by simp
  from l1 have "built (step (Settled k out) (run mid (step (Invoked e (Thenable k)) (run pre c))))
                  = settled_as out"
    by (simp add: follow_def)
  then have "built (run post (step (Settled k out) (run mid (step (Invoked e (Thenable k)) (run pre c)))))
                  = settled_as out"
    by (rule built_settled_run)
  then show "built (run (pre @ Invoked e (Thenable k) # mid @ Settled k out # post) c) = settled_as out"
    by simp
qed

lemma forwarded_built:
  assumes "coupled c" and "guarded c = Built"
  shows "forwarded (watching (run evs c)) = seen (built (run evs c))"
proof -
  have "coupled (run evs c)" using assms(1) by (rule coupled_run)
  moreover have "guarded (run evs c) = Built" by (simp only: guarded_run assms(2))
  ultimately show ?thesis unfolding coupled_def by blast
qed

lemma first_invocation_result:
  assumes "coupled c" and "guarded c = Built" and "built c = Pending"
    and "\<not> list_ex is_invocation pre"
  shows "truthy e \<Longrightarrow> forwarded (watching (run (pre @ Invoked e d # post) c)) = Rejected e"
    and "\<not> truthy e \<Longrightarrow>
           forwarded (watching (run (pre @ Invoked e (Plain v) # post) c)) = Fulfilled v"
    and "\<not> truthy e \<Longrightarrow> \<not> list_ex (settles k) mid \<Longrightarrow>
           forwarded (watching (run (pre @ Invoked e (Thenable k) # mid) c)) = Pending"
    and "\<not> truthy e \<Longrightarrow> \<not> list_ex (settles k) mid \<Longrightarrow>
           forwarded (watching (run (pre @ Invoked e (Thenable k) # mid @ Settled k out # post) c))
             = settled_as out"
proof -
  note fb = forwarded_built [OF assms(1,2)]
  note ff = first_invocation_fate [OF assms(3,4)]
  show "forwarded (watching (run (pre @ Invoked e d # post) c)) = Rejected e" if "truthy e"
    by (simp only: fb ff(1) [OF that] seen.simps)
  show "forwarded (watching (run (pre @ Invoked e (Plain v) # post) c)) = Fulfilled v"
    if "\<not> truthy e"
    by (simp only: fb ff(2) [OF that] seen.simps)
  assume f: "\<not> truthy e" and q: "\<not> list_ex (settles k) mid"
  show "forwarded (watching (run (pre @ Invoked e (Thenable k) # mid) c)) = Pending"
    by (simp only: fb ff(3) [OF f q] seen.simps)
  show "forwarded (watching (run (pre @ Invoked e (Thenable k) # mid @ Settled k out # post) c))
             = settled_as out"
    by (cases out) (simp_all only: fb ff(4) [OF f q] settled_as.simps seen.simps)
qed

lemma methods_plugin_with:
  "methods (plugin_with name n done) ''compile'' = Some \<lparr>declared_params = n, body = (\<lambda>args. done)\<rparr>"
  by (simp add: plugin_with_def)

lemma sync_call: "callPlugin sync_plugin ''compile'' some_file = Inr (pending_call ''SyncCompiler'')"
  by (simp add: callPlugin_def sync_plugin_def plugin_with_def some_file_def plugin_args_def
        isPromise_def safePromise_def pending_call_def)

lemma callback_call:
  "callPlugin callback_plugin ''compile'' some_file = Inr (pending_call ''CallbackCompiler'')"
  by (simp add: callPlugin_def callback_plugin_def plugin_with_def some_file_def plugin_args_def
        isPromise_def safePromise_def pending_call_def)

lemma promise_call_eq: "callPlugin promise_plugin ''compile'' some_file = Inr promise_call"
  by (simp add: callPlugin_def promise_plugin_def plugin_with_def some_file_def plugin_args_def
        isPromise_def safePromise_def promise_call_def)

subsection \<open>Direct style with a plain return value\<close>

text \<open>
  Claim C2, as amended: for a hook with declared parameter count 1 that returns a value
  which is not an awaitable, the returned value is dropped.  The result of the
  invocation is the operation built around the completion callback, which the hook
  receives as an extra argument after the file.  The result stays pending as long as
  the hook does not invoke that callback, and the first invocation decides it: with a
  truthy error the result is rejected with that error; with a falsy error and a
  result of the callback that is not an awaitable it is fulfilled with that result;
  with a falsy error and an awaitable as the result of the callback it stays pending
  until the outcome of that awaitable arrives and then takes that outcome.  Nothing
  that happens later changes what was decided.
\<close>

theorem direct_style_plain_return:
  assumes "methods p m = Some fn" and "declared_params fn = 1"
    and "body fn [FileArg f, CallbackArg] = Returns v" and "\<not> isPromise v"
  shows "\<exists>c. callPlugin p m f = Inr c \<and> guarded c = Built
     \<and> (\<forall>evs. \<not> list_ex is_invocation evs \<longrightarrow> forwarded (watching (run evs c)) = Pending)
     \<and> (\<forall>pre e d post. \<not> list_ex is_invocation pre \<and> truthy e \<longrightarrow>
           forwarded (watching (run (pre @ Invoked e d # post) c)) = Rejected e)
     \<and> (\<forall>pre e w post. \<not> list_ex is_invocation pre \<and> \<not> truthy e \<longrightarrow>
           forwarded (watching (run (pre @ Invoked e (Plain w) # post) c)) = Fulfilled w)
     \<and> (\<forall>pre e k mid. \<not> list_ex is_invocation pre \<and> \<not> truthy e \<and> \<not> list_ex (settles k) mid \<longrightarrow>
           forwarded (watching (run (pre @ Invoked e (Thenable k) # mid) c)) = Pending)
     \<and> (\<forall>pre e k mid out post.
           \<not> list_ex is_invocation pre \<and> \<not> truthy e \<and> \<not> list_ex (settles k) mid \<longrightarrow>
           forwarded (watching (run (pre @ Invoked e (Thenable k) # mid @ Settled k out # post) c))
             = settled_as out)"
proof -
  obtain c where c: "callPlugin p m f = Inr c" and g: "guarded c = Built"
    using assms by (simp add: callPlugin_def plugin_args_def)
  note init = callPlugin_Inr [OF c]
  have quiet: "forwarded (watching (run evs c)) = Pending" if "\<not> list_ex is_invocation evs" for evs
  proof -
    have "built (run evs c) = Pending" using that init(1) by (rule built_quiet_run)
    then show ?thesis by (simp add: forwarded_built [OF init(3) g])
  qed
  note r = first_invocation_result [OF init(3) g init(1)]
  from c g quiet r show ?thesis by blast
qed

text \<open>
  The amended claim C2 for a hook that returns 42: pending after a period and the
  settlement of an unrelated awaitable; fulfilled by the callback and not by 42;
  pending while the awaitable the callback passed is unsettled, and fulfilled with it.
\<close>

theorem direct_style_plain_return_witness:
  "forwarded (watching (run [Elapsed, Settled 3 (Fulfil Null)] (pending_call ''SyncCompiler''))) = Pending
   \<and> forwarded (watching (run [Elapsed, Invoked (Plain Null) (Plain (Str ''js'')), Elapsed]
                            (pending_call ''SyncCompiler''))) = Fulfilled (Str ''js'')
   \<and> forwarded (watching (run [Invoked (Plain Null) (Thenable 9), Elapsed]
                            (pending_call ''SyncCompiler''))) = Pending
   \<and> forwarded (watching (run [Invoked (Plain Null) (Thenable 9), Elapsed,
                                 Settled 9 (Fulfil (Str ''js''))]
                            (pending_call ''SyncCompiler''))) = Fulfilled (Str ''js'')"
proof -
  let ?h = "\<lparr>declared_params = 1, body = (\<lambda>args. Returns (Plain (Num 42)))\<rparr>"
  have h1: "methods sync_plugin ''compile'' = Some ?h"
    unfolding sync_plugin_def by (rule methods_plugin_with)
  have h2: "declared_params ?h = 1" by simp
  have h3: "body ?h [FileArg some_file, CallbackArg] = Returns (Plain (Num 42))" by simp
  have h4: "\<not> isPromise (Plain (Num 42))" by (simp add: isPromise_def)
  from direct_style_plain_return [OF h1 h2 h3 h4] obtain c where
    c: "callPlugin sync_plugin ''compile'' some_file = Inr c"
    and q: "\<forall>evs. \<not> list_ex is_invocation evs \<longrightarrow> forwarded (watching (run evs c)) = Pending"
    and i: "\<forall>pre e w post. \<not> list_ex is_invocation pre \<and> \<not> truthy e \<longrightarrow>
           forwarded (watching (run (pre @ Invoked e (Plain w) # post) c)) = Fulfilled w"
    and l: "\<forall>pre e k mid. \<not> list_ex is_invocation pre \<and> \<not> truthy e \<and> \<not> list_ex (settles k) mid \<longrightarrow>
           forwarded (watching (run (pre @ Invoked e (Thenable k) # mid) c)) = Pending"
    and s: "\<forall>pre e k mid out post.
           \<not> list_ex is_invocation pre \<and> \<not> truthy e \<and> \<not> list_ex (settles k) mid \<longrightarrow>
           forwarded (watching (run (pre @ Invoked e (Thenable k) # mid @ Settled k out # post) c))
             = settled_as out"
    by blast
  from c have ceq: "c = pending_call ''SyncCompiler''" by (simp add: sync_call)
  have n0: "\<not> list_ex is_invocation []" by simp
  have n1: "\<not> list_ex is_invocation [Elapsed, Settled 3 (Fulfil Null)]" by simp
  have n2: "\<not> list_ex is_invocation [Elapsed]" by simp
  have n3: "\<not> list_ex (settles 9) [Elapsed]" by simp
  have f: "\<not> truthy (Plain Null)" by simp
  from q n1 have 1: "forwarded (watching (run [Elapsed, Settled 3 (Fulfil Null)] c)) = Pending"
    by blast
  from i n2 f have 2: "forwarded (watching (run ([Elapsed] @ Invoked (Plain Null) (Plain (Str ''js'')) # [Elapsed]) c))
       = Fulfilled (Str ''js'')"
    by blast
  from l n0 f n3 have 3: "forwarded (watching (run ([] @ Invoked (Plain Null) (Thenable 9) # [Elapsed]) c)) = Pending"
    by blast
  from s n0 f n3 have 4: "forwarded (watching (run ([] @ Invoked (Plain Null) (Thenable 9) # [Elapsed]
                            @ Settled 9 (Fulfil (Str ''js'')) # []) c)) = settled_as (Fulfil (Str ''js''))"
    by blast
  from 1 2 3 4 show ?thesis
    unfolding ceq by (simp only: append_Cons append_Nil settled_as.simps)
qed

text \<open>
  Claim C2 as it was stated has the result resolve at once with the returned value.
  For the hook that returns 42 and never invokes the callback the result is pending
  after the call and still pending two warnings later.
\<close>

theorem plain_return_stays_pending:
  "callPlugin sync_plugin ''compile'' some_file = Inr (pending_call ''SyncCompiler'')
   \<and> forwarded (watching (pending_call ''SyncCompiler'')) \<noteq> Fulfilled (Num 42)
   \<and> forwarded (watching (run [Elapsed, Elapsed] (pending_call ''SyncCompiler''))) = Pending
   \<and> warned (watching (run [Elapsed, Elapsed] (pending_call ''SyncCompiler''))) =
       [''SyncCompiler is taking too long to compile @ app/init.coffee'',
        ''SyncCompiler is taking too long to compile @ app/init.coffee'']"
  by (simp add: sync_call) (simp add: pending_call_def warn_fires_def)

subsection \<open>Failures\<close>

text \<open>
  Claim C3, as amended: an exception the hook throws while it is applied leaves
  \<^verbatim>\<open>callPlugin\<close> as that same exception, thrown synchronously, and no awaitable is
  returned; a rejection of the awaitable the hook returned becomes a rejection of the
  result with the same reason; and, when the hook returned no awaitable, a first
  invocation of the callback with a truthy error rejects the result with that error.
  Later events do not change the rejection.
\<close>

theorem failure_surfacing:
  assumes "methods p m = Some fn"
  shows "(body fn (plugin_args fn f) = Throws e \<longrightarrow> callPlugin p m f = Inl (Thrown e))
     \<and> (body fn (plugin_args fn f) = Returns (Thenable k) \<and> \<not> list_ex (settles k) pre \<longrightarrow>
          (\<exists>c. callPlugin p m f = Inr c
             \<and> forwarded (watching (run (pre @ Settled k (Reject r) # post) c)) = Rejected r))
     \<and> (body fn (plugin_args fn f) = Returns v \<and> \<not> isPromise v
          \<and> \<not> list_ex is_invocation pre \<and> truthy e \<longrightarrow>
          (\<exists>c. callPlugin p m f = Inr c
             \<and> forwarded (watching (run (pre @ Invoked e d # post) c)) = Rejected e))"
proof (intro conjI impI)
  assume "body fn (plugin_args fn f) = Throws e"
  with assms show "callPlugin p m f = Inl (Thrown e)"
    by (simp add: callPlugin_def)
next
  assume a: "body fn (plugin_args fn f) = Returns (Thenable k) \<and> \<not> list_ex (settles k) pre"
  then obtain c where c: "callPlugin p m f = Inr c" and g: "guarded c = Given (Thenable k)"
    using assms by (simp add: callPlugin_def isPromise_def)
  have "forwarded (watching (run (pre @ Settled k (Reject r) # post) c)) = settled_as (Reject r)"
    using g callPlugin_Inr(2) [OF c] a by (intro given_settles) simp_all
  with c show "\<exists>c. callPlugin p m f = Inr c
             \<and> forwarded (watching (run (pre @ Settled k (Reject r) # post) c)) = Rejected r"
    by simp
next
  assume a: "body fn (plugin_args fn f) = Returns v \<and> \<not> isPromise v
          \<and> \<not> list_ex is_invocation pre \<and> truthy e"
  then obtain c where c: "callPlugin p m f = Inr c" and g: "guarded c = Built"
    using assms by (simp add: callPlugin_def)
  have "forwarded (watching (run (pre @ Invoked e d # post) c)) = Rejected e"
    using callPlugin_Inr(3,1) [OF c] g a by (intro built_rejects) simp_all
  with c show "\<exists>c. callPlugin p m f = Inr c
             \<and> forwarded (watching (run (pre @ Invoked e d # post) c)) = Rejected e"
    by simp
qed

text \<open>The amended claim C3 at a throwing hook, a rejected awaitable and a callback error.\<close>

theorem failure_surfacing_witness:
  "callPlugin (plugin_with ''Thrower'' 3 (Throws (Plain (Str ''bad'')))) ''compile'' some_file
       = Inl (Thrown (Plain (Str ''bad'')))
   \<and> forwarded (watching (run [Elapsed, Settled 5 (Reject (Plain (Obj 2))), Elapsed] promise_call))
       = Rejected (Plain (Obj 2))
   \<and> forwarded (watching (run [Elapsed, Invoked (Plain (Obj 3)) (Plain Undefined)]
                            (pending_call ''CallbackCompiler'')))
       = Rejected (Plain (Obj 3))"
proof -
  let ?thrower = "plugin_with ''Thrower'' 3 (Throws (Plain (Str ''bad'')))"
  let ?t = "\<lparr>declared_params = 3, body = (\<lambda>args. Throws (Plain (Str ''bad'')))\<rparr>"
  let ?p = "\<lparr>declared_params = 1, body = (\<lambda>args. Returns (Thenable 5))\<rparr>"
  let ?cb = "\<lparr>declared_params = 3, body = (\<lambda>args. Returns (Plain Undefined))\<rparr>"
  have mt: "methods ?thrower ''compile'' = Some ?t" by (rule methods_plugin_with)
  have mp: "methods promise_plugin ''compile'' = Some ?p"
    unfolding promise_plugin_def by (rule methods_plugin_with)
  have mc: "methods callback_plugin ''compile'' = Some ?cb"
    unfolding callback_plugin_def by (rule methods_plugin_with)
  have a: "callPlugin ?thrower ''compile'' some_file = Inl (Thrown (Plain (Str ''bad'')))"
    using failure_surfacing [OF mt, where f = some_file and e = "Plain (Str ''bad'')"] by simp
  have "\<exists>c. callPlugin promise_plugin ''compile'' some_file = Inr c
          \<and> forwarded (watching (run ([Elapsed] @ Settled 5 (Reject (Plain (Obj 2))) # [Elapsed]) c))
              = Rejected (Plain (Obj 2))"
    using failure_surfacing [OF mp, where f = some_file and k = 5 and pre = "[Elapsed]"
        and r = "Plain (Obj 2)" and post = "[Elapsed]"] by simp
  then obtain c1 where c1: "callPlugin promise_plugin ''compile'' some_file = Inr c1"
    and f1: "forwarded (watching (run ([Elapsed] @ Settled 5 (Reject (Plain (Obj 2))) # [Elapsed]) c1))
              = Rejected (Plain (Obj 2))"
    by blast
  from c1 have e1: "c1 = promise_call" by (simp add: promise_call_eq)
  have b: "forwarded (watching (run ([Elapsed] @ Settled 5 (Reject (Plain (Obj 2))) # [Elapsed]) promise_call))
              = Rejected (Plain (Obj 2))"
    using f1 unfolding e1 .
  have "\<exists>c. callPlugin callback_plugin ''compile'' some_file = Inr c
          \<and> forwarded (watching (run ([Elapsed] @ Invoked (Plain (Obj 3)) (Plain Undefined) # []) c))
              = Rejected (Plain (Obj 3))"
    using failure_surfacing [OF mc, where f = some_file and v = "Plain Undefined" and pre = "[Elapsed]"
        and e = "Plain (Obj 3)" and d = "Plain Undefined" and post = "[]"]
    by (simp add: isPromise_def)
  then obtain c2 where c2: "callPlugin callback_plugin ''compile'' some_file = Inr c2"
    and f2: "forwarded (watching (run ([Elapsed] @ Invoked (Plain (Obj 3)) (Plain Undefined) # []) c2))
              = Rejected (Plain (Obj 3))"
    by blast
  from c2 have e2: "c2 = pending_call ''CallbackCompiler''" by (simp add: callback_call)
  have c: "forwarded (watching (run ([Elapsed] @ Invoked (Plain (Obj 3)) (Plain Undefined) # [])
                    (pending_call ''CallbackCompiler''))) = Rejected (Plain (Obj 3))"
    using f2 unfolding e2 .
  from a b c show ?thesis by (simp only: append_Cons append_Nil)
qed

text \<open>
  Claim C3 as it was stated has a synchronous throw surface as a rejection of the
  returned awaitable.  \<^verbatim>\<open>fn.apply\<close> runs outside the executor of \<^verbatim>\<open>promise\<close> and
  outside any \<^verbatim>\<open>try\<close> (line 57): the call ends with the exception.
\<close>

theorem sync_throw_propagates:
  "callPlugin throwing_plugin ''compile'' some_file = Inl (Thrown (Plain (Obj 1)))"
  by (simp add: callPlugin_def throwing_plugin_def plugin_with_def)

subsection \<open>The completion callback\<close>




subsection \<open>Later invocations of the callback\<close>




end
